theory Spec2Isabelle
  imports Complex_Main "HOL-Library.Multiset"
begin

section \<open>Cards, the deck and Python's failures\<close>

text \<open>
  A card is the tuple \<open>(rank, suit)\<close> of the source: the rank is a Python integer, the
  suit one of the four one-letter strings \<open>'H'\<close>, \<open>'D'\<close>, \<open>'C'\<close>, \<open>'S'\<close>.
\<close>

datatype suit = H | D | C | S

type_synonym card = "int \<times> suit"

text \<open>The two exceptions the engine's list operations can raise.\<close>

datatype error = IndexError | ValueError

text \<open>
  \<open>self.deck = [(rank, suit) for rank in range(2,15) for suit in ['H','D','C','S']]\<close>
\<close>

definition deck :: "card list" where
  "deck = concat (map (\<lambda>rank. map (\<lambda>suit. (rank, suit)) [H, D, C, S]) [2..14])"

text \<open>
  \<open>np.random.shuffle\<close> permutes a list in place with the generator's hidden state. A run
  of the engine is modelled for a given outcome of each shuffle: a shuffle is a function
  from the list it is handed to the list it leaves behind, and it is a real shuffle when
  it only reorders.
\<close>

type_synonym shuffle = "card list \<Rightarrow> card list"

definition valid_shuffle :: "shuffle \<Rightarrow> bool" where
  "valid_shuffle sh \<longleftrightarrow> (\<forall>xs. mset (sh xs) = mset xs)"

text \<open>
  \<open>deal_cards\<close>: copy the deck, shuffle the copy, return \<open>deck[:3], deck[3:6]\<close>. Slices
  never raise; on a short list they are short.
\<close>

definition deal_cards :: "shuffle \<Rightarrow> card list \<times> card list" where
  "deal_cards sh = (let deck' = sh deck in (take 3 deck', take 3 (drop 3 deck')))"

section \<open>The three-card side bet\<close>

text \<open>
  \<open>evaluate_og3\<close>. \<open>len(set(xs))\<close> is the number of distinct elements,
  \<open>length (remdups xs)\<close>. \<open>ranks[2]\<close> raises IndexError on a list shorter than three; the
  \<open>and\<close> of the source short-circuits, so the index is only read where the suits test
  before it has passed.
\<close>

definition evaluate_og3 :: "card list \<Rightarrow> error + (string \<times> int)" where
  "evaluate_og3 hand =
     (let ranks = sort (map fst hand);
          suits = map snd hand
      in if length (remdups suits) = 1 \<and> ranks = [12, 13, 14] then Inr (''Mini Royal'', 50)
         else if length (remdups suits) = 1 \<and> length ranks < 3 then Inl IndexError
         else if length (remdups suits) = 1 \<and> ranks ! 2 - ranks ! 0 = 2
              then Inr (''Straight Flush'', 40)
         else if length (remdups ranks) = 1 then Inr (''Trips'', 30)
         else if length ranks < 3 then Inl IndexError
         else if ranks ! 2 - ranks ! 0 = 2 then Inr (''Straight'', 6)
         else if length (remdups suits) = 1 then Inr (''Flush'', 3)
         else if length (remdups ranks) = 2 then Inr (''Pair'', 1)
         else Inr (''Loss'', -1))"

section \<open>The draw policy\<close>

definition should_draw :: "card list \<Rightarrow> suit \<Rightarrow> bool \<times> card list" where
  "should_draw hand trump_suit =
     (let trump_cards = filter (\<lambda>c. snd c = trump_suit) hand
      in if length trump_cards \<ge> 2 then (False, [])
         else let non_trump = filter (\<lambda>c. snd c \<noteq> trump_suit) hand;
                  low_cards = filter (\<lambda>c. fst c < 10) non_trump
              in (length low_cards > 0, low_cards))"

text \<open>
  The exchange loop \<open>for card in cards_to_draw\<close>: \<open>player_hand.remove(card)\<close> deletes the
  first occurrence and raises ValueError when there is none; \<open>remaining_deck.pop()\<close>
  takes the last element and raises IndexError on an empty list. The state is the pair
  (player hand, remaining deck).
\<close>

fun exchange :: "card list \<Rightarrow> card list \<Rightarrow> card list \<Rightarrow> error + (card list \<times> card list)" where
  "exchange [] player_hand remaining_deck = Inr (player_hand, remaining_deck)"
| "exchange (c # cs) player_hand remaining_deck =
     (if c \<notin> set player_hand then Inl ValueError
      else if remaining_deck = [] then Inl IndexError
      else exchange cs (remove1 c player_hand @ [last remaining_deck])
             (butlast remaining_deck))"

text \<open>
  The cards neither side holds, in deck order, before the second shuffle:
  \<open>[card for card in self.deck if card not in player_hand + dealer_hand]\<close>.
\<close>

definition undealt :: "card list \<Rightarrow> card list \<Rightarrow> card list" where
  "undealt player_hand dealer_hand =
     filter (\<lambda>c. c \<notin> set (player_hand @ dealer_hand)) deck"

text \<open>
  Lines 75 to 81 of \<open>play_game\<close>: the draw decision and, if it says so, the exchange
  against the shuffled remaining deck. The result is the player's hand afterwards and
  the remaining deck, which does not exist (\<open>None\<close>) when nothing is drawn.
\<close>

definition redraw ::
  "shuffle \<Rightarrow> card list \<Rightarrow> card list \<Rightarrow> suit \<Rightarrow> error + (card list \<times> card list option)" where
  "redraw sh player_hand dealer_hand trump_suit =
     (let (draw, cards_to_draw) = should_draw player_hand trump_suit
      in if draw
         then (let remaining_deck = sh (undealt player_hand dealer_hand)
               in case exchange cards_to_draw player_hand remaining_deck of
                    Inl e \<Rightarrow> Inl e
                  | Inr (player_hand', remaining_deck') \<Rightarrow>
                      Inr (player_hand', Some remaining_deck'))
         else Inr (player_hand, None))"

section \<open>Trick play\<close>

definition evaluate_trick :: "card \<Rightarrow> card \<Rightarrow> suit \<Rightarrow> bool" where
  "evaluate_trick player_card dealer_card trump_suit =
     (if snd player_card = snd dealer_card then fst player_card > fst dealer_card
      else if snd player_card = trump_suit then True
      else if snd dealer_card = trump_suit then False
      else False)"

text \<open>
  \<open>max(playable, key=lambda x: x[0])\<close> on a non-empty list: the first card of the
  highest rank.
\<close>

fun max_rank :: "card \<Rightarrow> card list \<Rightarrow> card" where
  "max_rank best [] = best"
| "max_rank best (c # cs) =
     (if fst c > fst best then max_rank c cs else max_rank best cs)"

text \<open>The card the player commits against \<open>dealer_card\<close>; \<open>max\<close> of an empty list raises.\<close>

definition choose_card :: "suit \<Rightarrow> card \<Rightarrow> card list \<Rightarrow> error + card" where
  "choose_card trump_suit dealer_card player_hand =
     (let playable = filter (\<lambda>c. snd c = snd dealer_card) player_hand;
          playable = (if playable = []
                      then filter (\<lambda>c. snd c = trump_suit) player_hand else playable);
          playable = (if playable = [] then player_hand else playable)
      in case playable of [] \<Rightarrow> Inl ValueError
         | c # cs \<Rightarrow> Inr (max_rank c cs))"

text \<open>
  The loop \<open>for i, dealer_card in enumerate(dealer_hand)\<close> over the state
  (player hand, tricks won, used trump).
\<close>

fun play_tricks ::
  "suit \<Rightarrow> card list \<Rightarrow> card list \<Rightarrow> int \<Rightarrow> card list \<Rightarrow> error + (card list \<times> int \<times> card list)" where
  "play_tricks trump_suit [] player_hand tricks_won used_trump =
     Inr (player_hand, tricks_won, used_trump)"
| "play_tricks trump_suit (dealer_card # dealer_cards) player_hand tricks_won used_trump =
     (case choose_card trump_suit dealer_card player_hand of
        Inl e \<Rightarrow> Inl e
      | Inr play_card \<Rightarrow>
          play_tricks trump_suit dealer_cards (remove1 play_card player_hand)
            (if evaluate_trick play_card dealer_card trump_suit
             then tricks_won + 1 else tricks_won)
            (if snd play_card = trump_suit then used_trump @ [play_card] else used_trump))"

text \<open>
  The cards the player commits, trick by trick. The source keeps only the trump ones (in
  \<open>used_trump\<close>); this list names all of them, for the statements below.
\<close>

fun played_cards :: "suit \<Rightarrow> card list \<Rightarrow> card list \<Rightarrow> card list" where
  "played_cards trump_suit [] player_hand = []"
| "played_cards trump_suit (dealer_card # dealer_cards) player_hand =
     (case choose_card trump_suit dealer_card player_hand of
        Inl e \<Rightarrow> []
      | Inr play_card \<Rightarrow>
          play_card # played_cards trump_suit dealer_cards (remove1 play_card player_hand))"

section \<open>Payouts\<close>

text \<open>
  Lines 103 to 122: three assignments and three \<open>if\<close> statements in sequence, each
  overwriting what the one before set. The float literals of the source (\<open>-1.0\<close>, \<open>0.0\<close>,
  \<open>1.0\<close>, \<open>2.0\<close>, \<open>10.0\<close>, \<open>500.0\<close>) are whole numbers, read here as reals; no arithmetic
  is done on them. The triple is (ante, booray, play).
\<close>

definition is_akq :: "card list \<Rightarrow> bool" where
  "is_akq used_trump \<longleftrightarrow>
     sort (map fst used_trump) = [12, 13, 14] \<and> length (remdups (map snd used_trump)) = 1"

definition payouts :: "int \<Rightarrow> card list \<Rightarrow> real \<times> real \<times> real" where
  "payouts tricks_won used_trump =
     (let (ante, booray, play) = (-1, -1, -1);
          (ante, booray, play) = (if tricks_won \<ge> 1 then (1, 0, 0) else (ante, booray, play));
          (ante, booray, play) = (if tricks_won \<ge> 2 then (ante, booray, 1) else (ante, booray, play));
          (ante, booray, play) =
            (if tricks_won = 3
             then (ante,
                   (if is_akq used_trump then 500
                    else if length used_trump = 3 then 10
                    else 1),
                   2)
             else (ante, booray, play))
      in (ante, booray, play))"

section \<open>One trial\<close>

text \<open>
  \<open>play_game\<close> up to the end of the trick loop (lines 69 to 100), returning the local
  variables the rest of the function reads, with the hand the loop started from.
  \<open>dealer_hand[2]\<close> raises IndexError when fewer than six cards were dealt.
\<close>

record trial =
  t_trump_suit :: suit
  t_dealer_hand :: "card list"
  t_initial_hand :: "card list"
  t_og3_type :: string
  t_og3_payout :: int
  t_drawn_hand :: "card list"
  t_player_hand :: "card list"
  t_tricks_won :: int
  t_used_trump :: "card list"

definition play_game_tricks :: "shuffle \<Rightarrow> shuffle \<Rightarrow> error + trial" where
  "play_game_tricks sh1 sh2 =
     (let (player_hand, dealer_hand) = deal_cards sh1
      in if length dealer_hand < 3 then Inl IndexError
         else let trump_suit = snd (dealer_hand ! 2);
                  initial_hand = player_hand
              in case evaluate_og3 initial_hand of
                   Inl e \<Rightarrow> Inl e
                 | Inr (og3_type, og3_payout) \<Rightarrow>
                     (case redraw sh2 player_hand dealer_hand trump_suit of
                        Inl e \<Rightarrow> Inl e
                      | Inr (drawn_hand, remaining_deck) \<Rightarrow>
                          (case play_tricks trump_suit dealer_hand drawn_hand 0 [] of
                             Inl e \<Rightarrow> Inl e
                           | Inr (player_hand', tricks_won, used_trump) \<Rightarrow>
                               Inr \<lparr>t_trump_suit = trump_suit, t_dealer_hand = dealer_hand,
                                    t_initial_hand = initial_hand, t_og3_type = og3_type,
                                    t_og3_payout = og3_payout, t_drawn_hand = drawn_hand,
                                    t_player_hand = player_hand', t_tricks_won = tricks_won,
                                    t_used_trump = used_trump\<rparr>)))"

record GameResult =
  tricks_won :: int
  used_all_trump :: bool
  used_akq_trump :: bool
  initial_hand :: "card list"
  final_hand :: "card list"
  og3_type :: string
  og3_payout :: int
  ante_result :: real
  booray_result :: real
  play_result :: real

text \<open>Lines 103 to 135: the payouts and the record.\<close>

definition game_result :: "trial \<Rightarrow> GameResult" where
  "game_result t =
     (let (ante, booray, play) = payouts (t_tricks_won t) (t_used_trump t)
      in \<lparr>tricks_won = t_tricks_won t,
          used_all_trump = (length (t_used_trump t) = 3),
          used_akq_trump = (if length (t_used_trump t) = 3
                            then sort (map fst (t_used_trump t)) = [12, 13, 14] else False),
          initial_hand = t_initial_hand t,
          final_hand = t_player_hand t,
          og3_type = t_og3_type t,
          og3_payout = t_og3_payout t,
          ante_result = ante,
          booray_result = booray,
          play_result = play\<rparr>)"

definition play_game :: "shuffle \<Rightarrow> shuffle \<Rightarrow> error + GameResult" where
  "play_game sh1 sh2 =
     (case play_game_tricks sh1 sh2 of Inl e \<Rightarrow> Inl e | Inr t \<Rightarrow> Inr (game_result t))"

text \<open>
  A shuffle that brings the given cards to the front, in the order given, and leaves the
  rest in place; it leaves a list alone that does not hold them all once.
\<close>

definition stack :: "card list \<Rightarrow> shuffle" where
  "stack front xs =
     (if distinct front \<and> distinct xs \<and> list_all (\<lambda>c. c \<in> set xs) front
      then front @ filter (\<lambda>c. c \<notin> set front) xs else xs)"

section \<open>Notions for the statements\<close>

text \<open>
  What \<open>deal_cards\<close> hands out from a shuffled deck: three cards a side, six different
  cards of the deck.
\<close>

definition dealt :: "card list \<Rightarrow> card list \<Rightarrow> bool" where
  "dealt player_hand dealer_hand \<longleftrightarrow>
     length player_hand = 3 \<and> length dealer_hand = 3 \<and>
     distinct (player_hand @ dealer_hand) \<and> list_all (\<lambda>c. c \<in> set deck) (player_hand @ dealer_hand)"

text \<open>
  The number of tricks the trick resolver scores for the player, over the cards played
  against the dealer's cards in order.
\<close>

definition won_tricks :: "suit \<Rightarrow> card list \<Rightarrow> card list \<Rightarrow> int" where
  "won_tricks trump_suit played dealer_hand =
     int (length (filter (\<lambda>(p, d). evaluate_trick p d trump_suit) (zip played dealer_hand)))"

text \<open>
  The cards a redraw brought into the hand, and the cards it took out of it.
\<close>

definition cards_drawn :: "card list \<Rightarrow> card list \<Rightarrow> card list" where
  "cards_drawn old_hand new_hand = filter (\<lambda>c. c \<notin> set old_hand) new_hand"

definition cards_discarded :: "card list \<Rightarrow> card list \<Rightarrow> card list" where
  "cards_discarded old_hand new_hand = filter (\<lambda>c. c \<notin> set new_hand) old_hand"


section \<open>Shuffles, the deck and the deal\<close>

lemma valid_shuffle_mset: "valid_shuffle sh \<Longrightarrow> mset (sh xs) = mset xs"
  by (simp add: valid_shuffle_def)

lemma valid_shuffle_length: "valid_shuffle sh \<Longrightarrow> length (sh xs) = length xs"
  using valid_shuffle_mset [of sh xs] by (metis size_mset)

lemma valid_shuffle_set: "valid_shuffle sh \<Longrightarrow> set (sh xs) = set xs"
  using valid_shuffle_mset [of sh xs] by (metis set_mset_mset)

lemma valid_shuffle_distinct: "valid_shuffle sh \<Longrightarrow> distinct (sh xs) = distinct xs"
  using valid_shuffle_mset [of sh xs] by (metis mset_eq_imp_distinct_iff)

lemma valid_shuffle_id: "valid_shuffle id"
  by (simp add: valid_shuffle_def)

lemma valid_shuffle_stack: "valid_shuffle (stack front)"
proof -
  have "mset (stack front xs) = mset xs" for xs
  proof (cases "distinct front \<and> distinct xs \<and> list_all (\<lambda>c. c \<in> set xs) front")
    case True
    then have sub: "set front \<subseteq> set xs" by (auto simp: list_all_iff)
    have d: "distinct (front @ filter (\<lambda>c. c \<notin> set front) xs)"
      using True by auto
    have s: "set (front @ filter (\<lambda>c. c \<notin> set front) xs) = set xs"
      using sub by auto
    from d s True have "mset (front @ filter (\<lambda>c. c \<notin> set front) xs) = mset xs"
      by (metis set_eq_iff_mset_eq_distinct)
    with True show ?thesis by (simp add: stack_def)
  next
    case False
    then show ?thesis by (auto simp add: stack_def)
  qed
  then show ?thesis by (simp add: valid_shuffle_def)
qed

lemma length_deck: "length deck = 52"
  by code_simp

lemma distinct_deck: "distinct deck"
  by code_simp

lemma deal_cards_dealt:
  assumes "valid_shuffle sh"
  shows "dealt (fst (deal_cards sh)) (snd (deal_cards sh))"
proof -
  let ?d = "sh deck"
  have len: "length ?d = 52" using assms by (simp add: valid_shuffle_length length_deck)
  have dist: "distinct ?d" using assms by (simp add: valid_shuffle_distinct distinct_deck)
  have sub: "set ?d = set deck" using assms by (simp add: valid_shuffle_set)
  have six: "take 3 ?d @ take 3 (drop 3 ?d) = take 6 ?d"
    using take_add [of 3 3 ?d] by simp
  have "distinct (take 6 ?d)" using dist by simp
  moreover have "set (take 6 ?d) \<subseteq> set deck" using sub set_take_subset [of 6 ?d] by simp
  ultimately show ?thesis
    using len six by (auto simp: dealt_def deal_cards_def Let_def list_all_iff)
qed

lemma undealt_facts:
  assumes "dealt p d"
  shows "length (undealt p d) = 46" 
    and "distinct (undealt p d)"
    and "set (undealt p d) \<inter> set (p @ d) = {}"
    and "set (undealt p d) \<union> set (p @ d) = set deck"
proof -
  let ?P = "\<lambda>c. c \<in> set (p @ d)"
  have sub: "set (p @ d) \<subseteq> set deck" using assms by (auto simp: dealt_def list_all_iff)
  have "length (filter ?P deck) = card ({c. ?P c} \<inter> set deck)"
    by (rule distinct_length_filter [OF distinct_deck])
  also have "{c. ?P c} \<inter> set deck = set (p @ d)" using sub by auto
  also have "card (set (p @ d)) = 6"
    using assms distinct_card [of "p @ d"] by (simp add: dealt_def)
  finally have in6: "length (filter ?P deck) = 6" .
  have "length (filter ?P deck) + length (filter (\<lambda>c. \<not> ?P c) deck) = length deck"
    by (rule sum_length_filter_compl)
  with in6 show "length (undealt p d) = 46" by (simp add: undealt_def length_deck)
  show "distinct (undealt p d)" by (simp add: undealt_def distinct_deck)
  show "set (undealt p d) \<inter> set (p @ d) = {}" by (auto simp: undealt_def)
  show "set (undealt p d) \<union> set (p @ d) = set deck" using sub by (auto simp: undealt_def)
qed

lemma evaluate_og3_returns:
  "length hand = 3 \<Longrightarrow> \<exists>r. evaluate_og3 hand = Inr r"
  by (simp add: evaluate_og3_def Let_def)

lemma should_draw_list:
  "snd (should_draw hand t) =
     (if length (filter (\<lambda>c. snd c = t) hand) \<ge> 2 then []
      else filter (\<lambda>c. snd c \<noteq> t \<and> fst c < 10) hand)"
  by (auto simp: should_draw_def Let_def intro: filter_cong)

lemma should_draw_flag: "fst (should_draw hand t) \<longleftrightarrow> snd (should_draw hand t) \<noteq> []"
  by (simp add: should_draw_def Let_def)

lemma should_draw_sub:
  "set (snd (should_draw hand t)) \<subseteq> set hand"
  "distinct hand \<Longrightarrow> distinct (snd (should_draw hand t))"
  "length (snd (should_draw hand t)) \<le> length hand"
  by (auto simp: should_draw_list)

lemma exchange_closed:
  assumes "distinct hand" "distinct cs" "set cs \<subseteq> set hand"
    and "distinct rd" "set rd \<inter> set hand = {}" "length cs \<le> length rd"
  shows "exchange cs hand rd =
           Inr (filter (\<lambda>c. c \<notin> set cs) hand @ rev (drop (length rd - length cs) rd),
                take (length rd - length cs) rd)"
  using assms
proof (induction cs arbitrary: hand rd)
  case Nil
  then show ?case by simp
next
  case (Cons c cs)
  from Cons.prems have ne: "rd \<noteq> []" by auto
  then have rd: "rd = butlast rd @ [last rd]" by simp
  let ?h = "remove1 c hand @ [last rd]"
  have lastnot: "last rd \<notin> set hand" using Cons.prems ne by (meson disjoint_iff last_in_set)
  have lastnotb: "last rd \<notin> set (butlast rd)"
    using Cons.prems(4) rd by (metis distinct_butlast  distinct.simps(2) distinct1_rotate rotate1.simps(2) )
  have p1: "distinct ?h" using Cons.prems lastnot by (auto dest: notin_set_remove1)
  have p2: "distinct cs" using Cons.prems by simp
  have p3: "set cs \<subseteq> set ?h" using Cons.prems by auto
  have p4: "distinct (butlast rd)" using Cons.prems by (simp add: distinct_butlast)
  have p5: "set (butlast rd) \<inter> set ?h = {}"
  proof -
    have "set (butlast rd) \<subseteq> set rd" by (auto dest: in_set_butlastD)
    moreover have "set (remove1 c hand) \<subseteq> set hand" by (rule set_remove1_subset)
    ultimately show ?thesis using Cons.prems(5) lastnotb by auto
  qed
  have p6: "length cs \<le> length (butlast rd)" using Cons.prems by simp
  note IH = Cons.IH [OF p1 p2 p3 p4 p5 p6]
  have cin: "c \<in> set hand" using Cons.prems by simp
  have f1: "filter (\<lambda>x. x \<notin> set cs) ?h = filter (\<lambda>x. x \<notin> set (c # cs)) hand @ [last rd]"
  proof -
    have "last rd \<notin> set cs" using lastnot Cons.prems(3) by auto
    moreover have "remove1 c hand = filter (\<lambda>x. x \<noteq> c) hand"
      using Cons.prems(1) by (simp add: distinct_remove1_removeAll removeAll_filter_not_eq) (metis)
    ultimately show ?thesis by (auto intro: filter_cong)
  qed
  have k: "length rd - length (c # cs) = length (butlast rd) - length cs" by simp
  have kle: "length (butlast rd) - length cs \<le> length (butlast rd)" by simp
  have f2: "drop (length rd - length (c # cs)) rd =
              drop (length (butlast rd) - length cs) (butlast rd) @ [last rd]"
    unfolding k using kle rd by (metis drop_append diff_is_0_eq drop_0)
  have f3: "take (length rd - length (c # cs)) rd =
              take (length (butlast rd) - length cs) (butlast rd)"
    unfolding k using kle rd by (metis take_append diff_is_0_eq take_0 append_Nil2)
  have "exchange (c # cs) hand rd = exchange cs ?h (butlast rd)"
    using cin ne by simp
  also note IH
  finally show ?case unfolding f1 f2 f3 by simp
qed

lemma max_rank_in: "max_rank best cs \<in> set (best # cs)"
  by (induction cs arbitrary: best) (auto split: if_splits)

lemma choose_card_returns:
  assumes "hand \<noteq> []"
  shows "\<exists>c. choose_card t dc hand = Inr c \<and> c \<in> set hand"
proof -
  define p1 where "p1 = filter (\<lambda>c. snd c = snd dc) hand"
  define p2 where "p2 = (if p1 = [] then filter (\<lambda>c. snd c = t) hand else p1)"
  define p3 where "p3 = (if p2 = [] then hand else p2)"
  have sub: "set p3 \<subseteq> set hand" by (auto simp: p3_def p2_def p1_def)
  have ne: "p3 \<noteq> []" using assms by (simp add: p3_def)
  then obtain c cs where p3: "p3 = c # cs" by (cases p3) auto
  have "choose_card t dc hand =
          (case p3 of [] \<Rightarrow> Inl ValueError | c # cs \<Rightarrow> Inr (max_rank c cs))"
    by (simp only: choose_card_def Let_def p3_def p2_def p1_def)
  then have "choose_card t dc hand = Inr (max_rank c cs)"
    by (simp add: p3)
  moreover have "max_rank c cs \<in> set hand"
    using max_rank_in [of c cs] sub p3 by auto
  ultimately show ?thesis by blast
qed

lemma won_tricks_Cons:
  "won_tricks t (c # cs) (d # ds) = (if evaluate_trick c d t then 1 else 0) + won_tricks t cs ds"
  by (simp add: won_tricks_def)

lemma won_tricks_bounds:
  "0 \<le> won_tricks t cs ds" "won_tricks t cs ds \<le> int (length ds)"
proof -
  show "0 \<le> won_tricks t cs ds" by (simp add: won_tricks_def)
  have "length (filter (\<lambda>(p, d). evaluate_trick p d t) (zip cs ds)) \<le> length (zip cs ds)"
    by (rule length_filter_le)
  then show "won_tricks t cs ds \<le> int (length ds)" by (simp add: won_tricks_def)
qed

lemma play_tricks_closed:
  assumes "length ds \<le> length hand"
  shows "\<exists>hand'. play_tricks t ds hand tw ut =
           Inr (hand', tw + won_tricks t (played_cards t ds hand) ds,
                ut @ filter (\<lambda>c. snd c = t) (played_cards t ds hand))
         \<and> length hand' = length hand - length ds
         \<and> length (played_cards t ds hand) = length ds"
  using assms
proof (induction ds arbitrary: hand tw ut)
  case Nil
  then show ?case by (simp add: won_tricks_def)
next
  case (Cons d ds)
  then have "hand \<noteq> []" by auto
  then obtain c where c: "choose_card t d hand = Inr c" "c \<in> set hand"
    using choose_card_returns by blast
  let ?rest = "played_cards t ds (remove1 c hand)"
  let ?tw = "if evaluate_trick c d t then tw + 1 else tw"
  let ?ut = "if snd c = t then ut @ [c] else ut"
  have len: "length (remove1 c hand) = length hand - 1"
    using c(2) by (simp add: length_remove1)
  with Cons.prems have "length ds \<le> length (remove1 c hand)" by simp
  from Cons.IH [OF this, of ?tw ?ut] obtain hand' where
    run: "play_tricks t ds (remove1 c hand) ?tw ?ut =
            Inr (hand', ?tw + won_tricks t ?rest ds, ?ut @ filter (\<lambda>c. snd c = t) ?rest)"
    and l1: "length hand' = length (remove1 c hand) - length ds"
    and l2: "length ?rest = length ds"
    by blast
  have step: "play_tricks t (d # ds) hand tw ut = play_tricks t ds (remove1 c hand) ?tw ?ut"
    using c(1) by simp
  have pl: "played_cards t (d # ds) hand = c # ?rest"
    using c(1) by simp
  have e1: "?tw + won_tricks t ?rest ds = tw + won_tricks t (c # ?rest) (d # ds)"
    by (simp add: won_tricks_Cons)
  have e2: "?ut @ filter (\<lambda>c. snd c = t) ?rest = ut @ filter (\<lambda>c. snd c = t) (c # ?rest)"
    by simp
  have "play_tricks t (d # ds) hand tw ut =
          Inr (hand', tw + won_tricks t (played_cards t (d # ds) hand) (d # ds),
               ut @ filter (\<lambda>c. snd c = t) (played_cards t (d # ds) hand))"
    unfolding step run pl e1 e2 ..
  moreover have "length hand' = length hand - length (d # ds)"
    using l1 len by simp
  moreover have "length (played_cards t (d # ds) hand) = length (d # ds)"
    using l2 pl by simp
  ultimately show ?case by blast
qed

lemma redraw_closed:
  fixes t :: suit
  assumes "dealt p d" and "valid_shuffle sh"
  defines "cs \<equiv> snd (should_draw p t)" and "rd \<equiv> sh (undealt p d)"
  shows "redraw sh p d t =
           (if cs = [] then Inr (p, None)
            else Inr (filter (\<lambda>c. c \<notin> set cs) p @ rev (drop (46 - length cs) rd),
                      Some (take (46 - length cs) rd)))"
proof (cases "cs = []")
  case True
  then show ?thesis
    using should_draw_flag [of p t]
    by (simp add: redraw_def cs_def case_prod_beta)
next
  case False
  have dp: "distinct p" and lp: "length p = 3" using assms(1) by (auto simp: dealt_def)
  have len: "length rd = 46"
    using assms(2) undealt_facts(1) [OF assms(1)] by (simp add: rd_def valid_shuffle_length)
  have drd: "distinct rd"
    using assms(2) undealt_facts(2) [OF assms(1)] by (simp add: rd_def valid_shuffle_distinct)
  have "set rd = set (undealt p d)" using assms(2) by (simp add: rd_def valid_shuffle_set)
  then have dis: "set rd \<inter> set p = {}" using undealt_facts(3) [OF assms(1)] by auto
  have "length cs \<le> 3" using should_draw_sub(3) [of p t] lp by (simp add: cs_def)
  then have le: "length cs \<le> length rd" using len by simp
  have "exchange cs p rd =
          Inr (filter (\<lambda>c. c \<notin> set cs) p @ rev (drop (length rd - length cs) rd),
               take (length rd - length cs) rd)"
    using dp should_draw_sub(2) [OF dp, of t] should_draw_sub(1) [of p t] drd dis le
    unfolding cs_def by (rule exchange_closed)
  then show ?thesis
    using False should_draw_flag [of p t] len
    by (simp add: redraw_def cs_def rd_def case_prod_beta)
qed

lemma filter_mem_filter: "filter (\<lambda>c. c \<in> set (filter Q xs)) xs = filter Q xs"
  by (rule filter_cong) auto

lemma should_draw_refilter:
  "filter (\<lambda>c. c \<in> set (snd (should_draw p t))) p = snd (should_draw p t)"
proof (cases "length (filter (\<lambda>c. snd c = t) p) \<ge> 2")
  case True
  then show ?thesis by (simp add: should_draw_list)
next
  case False
  then show ?thesis
    using filter_mem_filter [of "\<lambda>c. snd c \<noteq> t \<and> fst c < 10" p]
    by (simp only: should_draw_list if_False)
qed

lemma redraw_facts:
  assumes "dealt p d" and "valid_shuffle sh"
  shows "\<exists>hand' rd. redraw sh p d t = Inr (hand', rd)
           \<and> length hand' = 3
           \<and> cards_discarded p hand' = snd (should_draw p t)
           \<and> length (cards_drawn p hand') = length (snd (should_draw p t))
           \<and> (case rd of None \<Rightarrow> snd (should_draw p t) = []
               | Some r \<Rightarrow> length r = 46 - length (snd (should_draw p t)))"
proof -
  define cs where "cs = snd (should_draw p t)"
  define rd where "rd = sh (undealt p d)"
  have lp: "length p = 3" using assms(1) by (simp add: dealt_def)
  have len: "length rd = 46"
    using assms(2) undealt_facts(1) [OF assms(1)] by (simp add: rd_def valid_shuffle_length)
  have "set rd = set (undealt p d)" using assms(2) by (simp add: rd_def valid_shuffle_set)
  then have dis: "set rd \<inter> set p = {}" using undealt_facts(3) [OF assms(1)] by auto
  have cs3: "length cs \<le> 3" using should_draw_sub(3) [of p t] lp by (simp add: cs_def)
  have sub: "set cs \<subseteq> set p" using should_draw_sub(1) [of p t] by (simp add: cs_def)
  have refl: "filter (\<lambda>c. c \<in> set cs) p = cs" by (simp add: cs_def should_draw_refilter)
  let ?keep = "filter (\<lambda>c. c \<notin> set cs) p"
  let ?new = "rev (drop (46 - length cs) rd)"
  have lnew: "length ?new = length cs" using len cs3 by simp
  have "length (filter (\<lambda>c. c \<in> set cs) p) + length ?keep = length p"
    by (rule sum_length_filter_compl)
  then have lkeep: "length ?keep + length cs = 3" using refl lp by simp
  have newdis: "set ?new \<inter> set p = {}" using dis by (auto dest: in_set_dropD)
  have drawn: "cards_drawn p (?keep @ ?new) = ?new"
    using newdis by (auto simp: cards_drawn_def filter_empty_conv filter_id_conv)
  have "cards_discarded p (?keep @ ?new) = filter (\<lambda>c. c \<in> set cs) p"
    unfolding cards_discarded_def using newdis by (intro filter_cong) auto
  then have disc: "cards_discarded p (?keep @ ?new) = cs" using refl by simp
  show ?thesis
  proof (cases "cs = []")
    case True
    then have "redraw sh p d t = Inr (p, None)"
      using redraw_closed [OF assms, of t] by (simp add: cs_def)
    moreover have "cards_discarded p p = []" "cards_drawn p p = []"
      by (simp_all add: cards_discarded_def cards_drawn_def)
    ultimately show ?thesis using True lp by (simp add: cs_def)
  next
    case False
    then have "redraw sh p d t = Inr (?keep @ ?new, Some (take (46 - length cs) rd))"
      using redraw_closed [OF assms, of t] by (simp add: cs_def rd_def)
    then show ?thesis
      using drawn disc lnew lkeep len cs3 by (simp add: cs_def)
  qed
qed

lemma play_game_tricks_run:
  assumes v1: "valid_shuffle sh1" and v2: "valid_shuffle sh2"
  defines "p \<equiv> fst (deal_cards sh1)" and "d \<equiv> snd (deal_cards sh1)"
  shows "\<exists>og dh rd.
           evaluate_og3 p = Inr og \<and> redraw sh2 p d (snd (d ! 2)) = Inr (dh, rd) \<and>
           length dh = 3 \<and> length (played_cards (snd (d ! 2)) d dh) = 3 \<and>
           play_game_tricks sh1 sh2 =
             Inr \<lparr>t_trump_suit = snd (d ! 2), t_dealer_hand = d, t_initial_hand = p,
                  t_og3_type = fst og, t_og3_payout = snd og, t_drawn_hand = dh,
                  t_player_hand = [],
                  t_tricks_won = won_tricks (snd (d ! 2)) (played_cards (snd (d ! 2)) d dh) d,
                  t_used_trump = filter (\<lambda>c. snd c = snd (d ! 2))
                                   (played_cards (snd (d ! 2)) d dh)\<rparr>"
proof -
  let ?t = "snd (d ! 2)"
  have dealt: "dealt p d" unfolding p_def d_def by (rule deal_cards_dealt [OF v1])
  then have lp: "length p = 3" and ld: "length d = 3" by (auto simp: dealt_def)
  obtain og where og: "evaluate_og3 p = Inr og"
    using evaluate_og3_returns [OF lp] by blast
  obtain dh rd where rdw: "redraw sh2 p d ?t = Inr (dh, rd)" and ldh: "length dh = 3"
    using redraw_facts [OF dealt v2, of ?t] by blast
  have "length d \<le> length dh" using ld ldh by simp
  from play_tricks_closed [OF this, of ?t 0 "[]"] obtain hand' where
    run: "play_tricks ?t d dh 0 [] =
            Inr (hand', won_tricks ?t (played_cards ?t d dh) d,
                 filter (\<lambda>c. snd c = ?t) (played_cards ?t d dh))"
    and lh: "length hand' = length dh - length d"
    and lpl: "length (played_cards ?t d dh) = length d"
    by auto
  have h: "hand' = []" using lh ld ldh by simp
  have dc: "deal_cards sh1 = (p, d)" by (simp add: p_def d_def)
  have "play_game_tricks sh1 sh2 =
          Inr \<lparr>t_trump_suit = ?t, t_dealer_hand = d, t_initial_hand = p,
               t_og3_type = fst og, t_og3_payout = snd og, t_drawn_hand = dh,
               t_player_hand = [],
               t_tricks_won = won_tricks ?t (played_cards ?t d dh) d,
               t_used_trump = filter (\<lambda>c. snd c = ?t) (played_cards ?t d dh)\<rparr>"
    unfolding play_game_tricks_def dc using ld og rdw run h
    by (simp add: case_prod_beta Let_def)
  then show ?thesis using og rdw ldh lpl ld by auto
qed

section \<open>Payout lemmas\<close>

lemma filter_all_of_length:
  assumes "length (filter P xs) = length xs"
  shows "filter P xs = xs"
proof -
  have "\<forall>x\<in>set xs. P x"
  proof (rule ccontr)
    assume "\<not> (\<forall>x\<in>set xs. P x)"
    then obtain x where "x \<in> set xs" "\<not> P x" by blast
    then have "length (filter P xs) < length xs" by (rule length_filter_less)
    with assms show False by simp
  qed
  then show ?thesis by (simp add: filter_id_conv)
qed

lemma is_akq_played:
  assumes "length pl = 3"
  shows "is_akq (filter (\<lambda>c. snd c = t) pl) \<longleftrightarrow> mset pl = mset [(12, t), (13, t), (14, t)]"
proof
  let ?u = "filter (\<lambda>c. snd c = t) pl"
  assume a: "is_akq ?u"
  then have s: "sort (map fst ?u) = [12, 13, 14]" by (simp add: is_akq_def)
  have "length (sort (map fst ?u)) = 3" unfolding s by simp
  then have "length ?u = length pl" using assms by simp
  then have u: "?u = pl" by (rule filter_all_of_length)
  then have allt: "\<forall>c\<in>set pl. snd c = t" by (simp add: filter_id_conv)
  then have "map (\<lambda>r. (r, t)) (map fst pl) = pl"
    by (auto intro!: map_idI)
  then have "mset pl = image_mset (\<lambda>r. (r, t)) (mset (map fst pl))"
    by (metis mset_map)
  also have "mset (map fst pl) = mset (sort (map fst pl))" by simp
  also have "sort (map fst pl) = [12, 13, 14]" using s u by simp
  finally show "mset pl = mset [(12, t), (13, t), (14, t)]" by simp
next
  let ?u = "filter (\<lambda>c. snd c = t) pl"
  assume m: "mset pl = mset [(12, t), (13, t), (14, t)]"
  then have "set pl = set [(12, t), (13, t), (14, t)]" by (rule mset_eq_setD)
  then have allt: "\<forall>c\<in>set pl. snd c = t" by auto
  then have u: "?u = pl" by (simp add: filter_id_conv)
  have "mset (map fst pl) = image_mset fst (mset pl)" by simp
  also have "\<dots> = mset [12, 13, 14]" unfolding m by simp
  finally have "mset [12, 13, 14] = mset (map fst pl)" by simp
  then have s: "sort (map fst pl) = [12, 13, 14]"
    by (rule properties_for_sort) simp
  have "pl \<noteq> []" using assms by auto
  then have "set (map snd pl) = {t}" using allt by (cases pl) auto
  then have "length (remdups (map snd pl)) = 1"
    by (simp add: length_remdups_card_conv)
  with s u show "is_akq ?u" by (simp add: is_akq_def)
qed

lemma game_result_fields:
  "tricks_won (game_result t) = t_tricks_won t"
  "final_hand (game_result t) = t_player_hand t"
  "ante_result (game_result t) = fst (payouts (t_tricks_won t) (t_used_trump t))"
  "booray_result (game_result t) = fst (snd (payouts (t_tricks_won t) (t_used_trump t)))"
  "play_result (game_result t) = snd (snd (payouts (t_tricks_won t) (t_used_trump t)))"
  "used_all_trump (game_result t) \<longleftrightarrow> length (t_used_trump t) = 3"
  "used_akq_trump (game_result t) \<longleftrightarrow>
     length (t_used_trump t) = 3 \<and> sort (map fst (t_used_trump t)) = [12, 13, 14]"
  by (simp_all add: game_result_def case_prod_beta)

lemma payouts_low:
  "payouts 0 ut = (-1, -1, -1)" "payouts 1 ut = (1, 0, 0)" "payouts 2 ut = (1, 0, 1)"
  by (simp_all add: payouts_def)

lemma payouts_three:
  "payouts 3 ut = (1, if is_akq ut then 500 else if length ut = 3 then 10 else 1, 2)"
  by (simp add: payouts_def)

section \<open>Concrete trials\<close>

lemma run_plain:
  "play_game_tricks id id =
     Inr \<lparr>t_trump_suit = D, t_dealer_hand = [(2, S), (3, H), (3, D)],
          t_initial_hand = [(2, H), (2, D), (2, C)], t_og3_type = ''Trips'',
          t_og3_payout = 30, t_drawn_hand = [(2, D), (14, S), (14, C)], t_player_hand = [],
          t_tricks_won = 2, t_used_trump = [(2, D)]\<rparr>"
  by code_simp

lemma run_akq:
  "play_game_tricks (stack [(12, S), (13, S), (14, S), (2, S), (3, S), (4, S)]) id =
     Inr \<lparr>t_trump_suit = S, t_dealer_hand = [(2, S), (3, S), (4, S)],
          t_initial_hand = [(12, S), (13, S), (14, S)], t_og3_type = ''Mini Royal'',
          t_og3_payout = 50, t_drawn_hand = [(12, S), (13, S), (14, S)], t_player_hand = [],
          t_tricks_won = 3, t_used_trump = [(14, S), (13, S), (12, S)]\<rparr>"
  by code_simp

lemma run_all_trump:
  "play_game_tricks (stack [(11, S), (13, S), (14, S), (2, S), (3, S), (4, S)]) id =
     Inr \<lparr>t_trump_suit = S, t_dealer_hand = [(2, S), (3, S), (4, S)],
          t_initial_hand = [(11, S), (13, S), (14, S)], t_og3_type = ''Flush'',
          t_og3_payout = 3, t_drawn_hand = [(11, S), (13, S), (14, S)], t_player_hand = [],
          t_tricks_won = 3, t_used_trump = [(14, S), (13, S), (11, S)]\<rparr>"
  by code_simp

lemma run_aces:
  "play_game_tricks (stack [(14, H), (14, D), (14, S), (2, H), (3, D), (4, S)]) id =
     Inr \<lparr>t_trump_suit = S, t_dealer_hand = [(2, H), (3, D), (4, S)],
          t_initial_hand = [(14, H), (14, D), (14, S)], t_og3_type = ''Trips'',
          t_og3_payout = 30, t_drawn_hand = [(14, H), (14, D), (14, S)], t_player_hand = [],
          t_tricks_won = 3, t_used_trump = [(14, S)]\<rparr>"
  by code_simp

lemma run_none:
  "play_game_tricks (stack [(10, H), (11, H), (12, H), (13, S), (14, S), (14, D)]) id =
     Inr \<lparr>t_trump_suit = D, t_dealer_hand = [(13, S), (14, S), (14, D)],
          t_initial_hand = [(10, H), (11, H), (12, H)], t_og3_type = ''Straight Flush'',
          t_og3_payout = 40, t_drawn_hand = [(10, H), (11, H), (12, H)], t_player_hand = [],
          t_tricks_won = 0, t_used_trump = []\<rparr>"
  by code_simp

lemma run_one:
  "play_game_tricks (stack [(10, H), (11, C), (12, C), (13, S), (14, S), (2, H)]) id =
     Inr \<lparr>t_trump_suit = H, t_dealer_hand = [(13, S), (14, S), (2, H)],
          t_initial_hand = [(10, H), (11, C), (12, C)], t_og3_type = ''Straight'',
          t_og3_payout = 6, t_drawn_hand = [(10, H), (11, C), (12, C)], t_player_hand = [],
          t_tricks_won = 1, t_used_trump = [(10, H)]\<rparr>"
  by code_simp

lemma played_akq:
  "played_cards S [(2, S), (3, S), (4, S)] [(12, S), (13, S), (14, S)] = [(14, S), (13, S), (12, S)]"
  "played_cards S [(2, S), (3, S), (4, S)] [(11, S), (13, S), (14, S)] = [(14, S), (13, S), (11, S)]"
  "played_cards S [(2, H), (3, D), (4, S)] [(14, H), (14, D), (14, S)] = [(14, H), (14, D), (14, S)]"
  by code_simp+

lemma dealt_low: "dealt [(2, H), (3, H), (4, H)] [(2, S), (3, S), (4, S)]"
  by code_simp

lemma redraw_low:
  "redraw id [(2, H), (3, H), (4, H)] [(2, S), (3, S), (4, S)] S =
     Inr ([(14, S), (14, C), (14, D)], Some (take 43 (undealt [(2, H), (3, H), (4, H)] [(2, S), (3, S), (4, S)])))"
  by code_simp

lemma aces_not_akq:
  "mset [(14, H), (14, D), (14, S)] \<noteq> mset [(12 :: int, S), (13, S), (14, S)]"
proof
  assume "mset [(14, H), (14, D), (14, S)] = mset [(12 :: int, S), (13, S), (14, S)]"
  then have eq: "set [(14, H), (14, D), (14, S)] = set [(12 :: int, S), (13, S), (14, S)]"
    by (rule mset_eq_setD)
  have "(14 :: int, H) \<in> set [(14, H), (14, D), (14, S)]" by simp
  then have "(14 :: int, H) \<in> set [(12 :: int, S), (13, S), (14, S)]" unfolding eq .
  then show False by simp
qed

section \<open>The claims\<close>

text \<open>
  Claim C1 says that every three-card hand with exactly two distinct ranks is classified
  ``Pair'' with payout 1 and never ``Straight''. The hand 5 of hearts, 5 of diamonds,
  7 of clubs, which a shuffle can deal to the player, has exactly two distinct ranks,
  and \<open>evaluate_og3\<close> returns ``Straight'' with payout 6 for it: the test
  \<open>ranks[2] - ranks[0] == 2\<close> comes before the pair test and does not ask for three
  different ranks.
\<close>
theorem evaluate_og3_pair_as_straight:
  "valid_shuffle (stack [(5, H), (5, D), (7, C), (2, S), (3, S), (4, S)]) \<and>
   fst (deal_cards (stack [(5, H), (5, D), (7, C), (2, S), (3, S), (4, S)])) =
     [(5, H), (5, D), (7, C)] \<and>
   length (remdups (map fst [(5, H), (5, D), (7, C) :: card])) = 2 \<and>
   evaluate_og3 [(5, H), (5, D), (7, C)] = Inr (''Straight'', 6)"
proof -
  have "fst (deal_cards (stack [(5, H), (5, D), (7, C), (2, S), (3, S), (4, S)])) =
          [(5, H), (5, D), (7, C)]"
    by code_simp
  then show ?thesis by (simp add: evaluate_og3_def valid_shuffle_stack)
qed

text \<open>
  Claim C2 says that after every completed trial the trump-usage list has exactly three
  entries, whether or not the played cards were trump. With both shuffles leaving their
  list as it is, the trial completes with two tricks won and a trump-usage list of one
  card, the 2 of diamonds: the loop appends a played card only when its suit is trump.
\<close>
theorem trump_usage_not_three:
  "valid_shuffle id \<and>
   play_game_tricks id id =
     Inr \<lparr>t_trump_suit = D, t_dealer_hand = [(2, S), (3, H), (3, D)],
          t_initial_hand = [(2, H), (2, D), (2, C)], t_og3_type = ''Trips'',
          t_og3_payout = 30, t_drawn_hand = [(2, D), (14, S), (14, C)], t_player_hand = [],
          t_tricks_won = 2, t_used_trump = [(2, D)]\<rparr> \<and>
   length (t_used_trump (projr (play_game_tricks id id))) \<noteq> 3"
  using run_plain by (simp add: valid_shuffle_id)

text \<open>
  Claim C2, as the code has it: every trial with real shuffles completes its trick loop;
  \<open>tricks_won\<close> is then one of 0, 1, 2, 3 and is the number of tricks the resolver scored
  for the player; three cards were played, one per trick; and the trump-usage list is the
  list of the played cards of the trump suit, in the order played, so it has at most
  three entries.
\<close>
theorem trick_loop_terminal:
  assumes "valid_shuffle sh1" and "valid_shuffle sh2"
  shows "\<exists>t. play_game_tricks sh1 sh2 = Inr t \<and> play_game sh1 sh2 = Inr (game_result t) \<and>
           tricks_won (game_result t) = t_tricks_won t \<and>
           t_tricks_won t \<in> {0, 1, 2, 3} \<and>
           length (played_cards (t_trump_suit t) (t_dealer_hand t) (t_drawn_hand t)) = 3 \<and>
           t_tricks_won t =
             won_tricks (t_trump_suit t)
               (played_cards (t_trump_suit t) (t_dealer_hand t) (t_drawn_hand t)) (t_dealer_hand t) \<and>
           t_used_trump t =
             filter (\<lambda>c. snd c = t_trump_suit t)
               (played_cards (t_trump_suit t) (t_dealer_hand t) (t_drawn_hand t)) \<and>
           length (t_used_trump t) \<le> 3"
proof -
  from play_game_tricks_run [OF assms] obtain t where
    run: "play_game_tricks sh1 sh2 = Inr t"
    and len: "length (played_cards (t_trump_suit t) (t_dealer_hand t) (t_drawn_hand t)) = 3"
    and won: "t_tricks_won t =
                won_tricks (t_trump_suit t)
                  (played_cards (t_trump_suit t) (t_dealer_hand t) (t_drawn_hand t)) (t_dealer_hand t)"
    and used: "t_used_trump t =
                 filter (\<lambda>c. snd c = t_trump_suit t)
                   (played_cards (t_trump_suit t) (t_dealer_hand t) (t_drawn_hand t))"
    and ld: "length (t_dealer_hand t) = 3"
    using deal_cards_dealt [OF assms(1)] by (fastforce simp: dealt_def)
  have "0 \<le> t_tricks_won t" "t_tricks_won t \<le> 3"
    using won won_tricks_bounds [of "t_trump_suit t" _ "t_dealer_hand t"] ld by auto
  then have in4: "t_tricks_won t \<in> {0, 1, 2, 3}" by auto
  have "length (t_used_trump t) \<le> 3"
    using len length_filter_le [of "\<lambda>c. snd c = t_trump_suit t"
        "played_cards (t_trump_suit t) (t_dealer_hand t) (t_drawn_hand t)"]
    by (simp add: used [symmetric])
  moreover have "play_game sh1 sh2 = Inr (game_result t)" using run by (simp add: play_game_def)
  ultimately show ?thesis using run len won used in4 by (auto simp: game_result_fields(1))
qed

theorem trick_loop_terminal_witness:
  "valid_shuffle id \<and>
   (\<exists>t. play_game_tricks id id = Inr t \<and> t_tricks_won t \<in> {0, 1, 2, 3} \<and>
        length (t_used_trump t) \<le> 3)"
  using trick_loop_terminal [of id id] by (auto simp: valid_shuffle_id)

text \<open>
  Claim C3 says that the number of cards exchanged in a redraw is always 0, 1 or 2. The
  hand 2, 3, 4 of hearts against trump spades holds no trump and three low cards; all
  three are flagged and the redraw brings three new cards into the hand.
\<close>
theorem redraw_three_cards:
  "dealt [(2, H), (3, H), (4, H)] [(2, S), (3, S), (4, S)] \<and> valid_shuffle id \<and>
   snd (should_draw [(2, H), (3, H), (4, H)] S) = [(2, H), (3, H), (4, H)] \<and>
   redraw id [(2, H), (3, H), (4, H)] [(2, S), (3, S), (4, S)] S =
     Inr ([(14, S), (14, C), (14, D)],
          Some (take 43 (undealt [(2, H), (3, H), (4, H)] [(2, S), (3, S), (4, S)]))) \<and>
   length (cards_drawn [(2, H), (3, H), (4, H)]
             (fst (projr (redraw id [(2, H), (3, H), (4, H)] [(2, S), (3, S), (4, S)] S))))
     \<notin> {0, 1, 2}"
  using dealt_low redraw_low
  by (simp add: valid_shuffle_id should_draw_def cards_drawn_def)

text \<open>
  Claim C3, as the code has it: for every dealt hand and every trump suit the redraw
  returns; the cards that left the hand are exactly the cards \<open>should_draw\<close> flagged, as
  many cards came in as were flagged, the flagged cards are the non-trump cards of rank
  below 10 when the hand holds fewer than two trump and none otherwise, and their number
  is 0, 1, 2 or 3.
\<close>
theorem redraw_count:
  assumes "dealt player_hand dealer_hand" and "valid_shuffle sh"
  shows "\<exists>hand' remaining.
           redraw sh player_hand dealer_hand trump_suit = Inr (hand', remaining) \<and>
           cards_discarded player_hand hand' = snd (should_draw player_hand trump_suit) \<and>
           length (cards_drawn player_hand hand') =
             length (snd (should_draw player_hand trump_suit)) \<and>
           snd (should_draw player_hand trump_suit) =
             (if length (filter (\<lambda>c. snd c = trump_suit) player_hand) \<ge> 2 then []
              else filter (\<lambda>c. snd c \<noteq> trump_suit \<and> fst c < 10) player_hand) \<and>
           length (snd (should_draw player_hand trump_suit)) \<in> {0, 1, 2, 3}"
proof -
  have "length (snd (should_draw player_hand trump_suit)) \<le> 3"
    using should_draw_sub(3) [of player_hand trump_suit] assms(1) by (simp add: dealt_def)
  moreover have "n \<in> {0, 1, 2, 3}" if "n \<le> 3" for n :: nat
    using that by simp arith
  ultimately have "length (snd (should_draw player_hand trump_suit)) \<in> {0, 1, 2, 3}"
    by blast
  then show ?thesis
    using redraw_facts [OF assms, of trump_suit] should_draw_list [of player_hand trump_suit]
    by fastforce
qed

theorem redraw_count_witness:
  "dealt [(2, H), (3, H), (4, H)] [(2, S), (3, S), (4, S)] \<and> valid_shuffle id \<and>
   (\<exists>hand' remaining.
      redraw id [(2, H), (3, H), (4, H)] [(2, S), (3, S), (4, S)] S = Inr (hand', remaining) \<and>
      length (cards_drawn [(2, H), (3, H), (4, H)] hand') =
        length (snd (should_draw [(2, H), (3, H), (4, H)] S)))"
  using redraw_count [OF dealt_low valid_shuffle_id, of S] dealt_low valid_shuffle_id
  by blast

text \<open>
  Claim C4: \<open>evaluate_trick\<close> says the player wins exactly when the two cards share a
  suit and the player's rank is higher, or the suits differ and the player's card is
  trump; in every other case the dealer wins, and a player card whose suit is neither
  the led suit nor the trump suit always loses.
\<close>
theorem evaluate_trick_rule:
  "(evaluate_trick player_card dealer_card trump_suit \<longleftrightarrow>
      (snd player_card = snd dealer_card \<and> fst player_card > fst dealer_card) \<or>
      (snd player_card \<noteq> snd dealer_card \<and> snd player_card = trump_suit)) \<and>
   (snd player_card \<noteq> snd dealer_card \<and> snd player_card \<noteq> trump_suit \<longrightarrow>
      \<not> evaluate_trick player_card dealer_card trump_suit)"
  by (auto simp: evaluate_trick_def)

theorem evaluate_trick_rule_witness:
  "snd (14 :: int, H) \<noteq> snd (2 :: int, S) \<and> snd (14 :: int, H) \<noteq> D \<and>
   \<not> evaluate_trick (14, H) (2, S) D \<and> evaluate_trick (2, D) (14, S) D \<and>
   evaluate_trick (9, S) (8, S) D"
  using evaluate_trick_rule [of "(14, H)" "(2, S)" D]
    evaluate_trick_rule [of "(2, D)" "(14, S)" D]
    evaluate_trick_rule [of "(9, S)" "(8, S)" D]
  by simp

text \<open>
  Claim C5: in the result of every completed trial, no trick won means ante, booray and
  play all at -1; one trick won means ante +1, booray 0 and play 0; two tricks won means
  ante +1, booray 0 and play +1.
\<close>
theorem payout_table_low:
  assumes "play_game sh1 sh2 = Inr r"
  shows "(tricks_won r = 0 \<longrightarrow>
            ante_result r = -1 \<and> booray_result r = -1 \<and> play_result r = -1) \<and>
         (tricks_won r = 1 \<longrightarrow>
            ante_result r = 1 \<and> booray_result r = 0 \<and> play_result r = 0) \<and>
         (tricks_won r = 2 \<longrightarrow>
            ante_result r = 1 \<and> booray_result r = 0 \<and> play_result r = 1)"
proof -
  from assms obtain t where r: "r = game_result t"
    by (auto simp: play_game_def split: sum.splits)
  show ?thesis unfolding r by (simp add: game_result_fields payouts_low)
qed

theorem payout_table_low_witness:
  "(\<exists>r. play_game (stack [(10, H), (11, H), (12, H), (13, S), (14, S), (14, D)]) id = Inr r \<and>
        tricks_won r = 0 \<and> ante_result r = -1 \<and> booray_result r = -1 \<and> play_result r = -1) \<and>
   (\<exists>r. play_game (stack [(10, H), (11, C), (12, C), (13, S), (14, S), (2, H)]) id = Inr r \<and>
        tricks_won r = 1 \<and> ante_result r = 1 \<and> booray_result r = 0 \<and> play_result r = 0) \<and>
   (\<exists>r. play_game id id = Inr r \<and>
        tricks_won r = 2 \<and> ante_result r = 1 \<and> booray_result r = 0 \<and> play_result r = 1)"
proof -
  let ?t0 = "\<lparr>t_trump_suit = D, t_dealer_hand = [(13, S), (14, S), (14, D)],
          t_initial_hand = [(10, H), (11, H), (12, H)], t_og3_type = ''Straight Flush'',
          t_og3_payout = 40, t_drawn_hand = [(10, H), (11, H), (12, H)], t_player_hand = [],
          t_tricks_won = 0, t_used_trump = []\<rparr>"
  let ?t1 = "\<lparr>t_trump_suit = H, t_dealer_hand = [(13, S), (14, S), (2, H)],
          t_initial_hand = [(10, H), (11, C), (12, C)], t_og3_type = ''Straight'',
          t_og3_payout = 6, t_drawn_hand = [(10, H), (11, C), (12, C)], t_player_hand = [],
          t_tricks_won = 1, t_used_trump = [(10, H)]\<rparr>"
  let ?t2 = "\<lparr>t_trump_suit = D, t_dealer_hand = [(2, S), (3, H), (3, D)],
          t_initial_hand = [(2, H), (2, D), (2, C)], t_og3_type = ''Trips'',
          t_og3_payout = 30, t_drawn_hand = [(2, D), (14, S), (14, C)], t_player_hand = [],
          t_tricks_won = 2, t_used_trump = [(2, D)]\<rparr>"
  have g0: "play_game (stack [(10, H), (11, H), (12, H), (13, S), (14, S), (14, D)]) id =
              Inr (game_result ?t0)"
    by (simp add: play_game_def run_none)
  have g1: "play_game (stack [(10, H), (11, C), (12, C), (13, S), (14, S), (2, H)]) id =
              Inr (game_result ?t1)"
    by (simp add: play_game_def run_one)
  have g2: "play_game id id = Inr (game_result ?t2)"
    by (simp add: play_game_def run_plain)
  have w0: "tricks_won (game_result ?t0) = 0" and w1: "tricks_won (game_result ?t1) = 1"
    and w2: "tricks_won (game_result ?t2) = 2"
    by (simp_all add: game_result_fields)
  show ?thesis
    using payout_table_low [OF g0] payout_table_low [OF g1] payout_table_low [OF g2]
      g0 g1 g2 w0 w1 w2
    by simp
qed

text \<open>
  Claim C6: for every completed trial with three tricks won, ante is +1 and play is +2;
  booray is +500 when the three played cards are the queen, king and ace (ranks 12, 13,
  14) of the trump suit, +10 when all three played cards are trump but not those three,
  and +1 otherwise.
\<close>
theorem payout_three_tricks:
  assumes "valid_shuffle sh1" and "valid_shuffle sh2"
    and "play_game_tricks sh1 sh2 = Inr t" and "t_tricks_won t = 3"
  shows "play_game sh1 sh2 = Inr (game_result t) \<and> tricks_won (game_result t) = 3 \<and>
         length (played_cards (t_trump_suit t) (t_dealer_hand t) (t_drawn_hand t)) = 3 \<and>
         ante_result (game_result t) = 1 \<and> play_result (game_result t) = 2 \<and>
         booray_result (game_result t) =
           (if mset (played_cards (t_trump_suit t) (t_dealer_hand t) (t_drawn_hand t)) =
                 mset [(12, t_trump_suit t), (13, t_trump_suit t), (14, t_trump_suit t)]
            then 500
            else if list_all (\<lambda>c. snd c = t_trump_suit t)
                      (played_cards (t_trump_suit t) (t_dealer_hand t) (t_drawn_hand t))
            then 10 else 1)"
proof -
  let ?pl = "played_cards (t_trump_suit t) (t_dealer_hand t) (t_drawn_hand t)"
  from play_game_tricks_run [OF assms(1,2)] assms(3)
  have len: "length ?pl = 3"
    and used: "t_used_trump t = filter (\<lambda>c. snd c = t_trump_suit t) ?pl"
    by auto
  have akq: "is_akq (t_used_trump t) \<longleftrightarrow>
               mset ?pl = mset [(12, t_trump_suit t), (13, t_trump_suit t), (14, t_trump_suit t)]"
    unfolding used by (rule is_akq_played [OF len])
  have all3: "length (t_used_trump t) = 3 \<longleftrightarrow> list_all (\<lambda>c. snd c = t_trump_suit t) ?pl"
  proof
    assume "length (t_used_trump t) = 3"
    then have "length (filter (\<lambda>c. snd c = t_trump_suit t) ?pl) = length ?pl"
      using len used by simp
    then have "filter (\<lambda>c. snd c = t_trump_suit t) ?pl = ?pl" by (rule filter_all_of_length)
    then show "list_all (\<lambda>c. snd c = t_trump_suit t) ?pl"
      by (simp add: filter_id_conv list_all_iff)
  next
    assume "list_all (\<lambda>c. snd c = t_trump_suit t) ?pl"
    then have "filter (\<lambda>c. snd c = t_trump_suit t) ?pl = ?pl"
      by (simp add: filter_id_conv list_all_iff)
    then show "length (t_used_trump t) = 3" using len used by simp
  qed
  have "play_game sh1 sh2 = Inr (game_result t)" using assms(3) by (simp add: play_game_def)
  moreover have "booray_result (game_result t) =
      (if is_akq (t_used_trump t) then 500 else if length (t_used_trump t) = 3 then 10 else 1)"
    using assms(4) by (simp add: game_result_fields payouts_three)
  ultimately show ?thesis
    using assms(4) len unfolding akq all3 by (simp add: game_result_fields payouts_three)
qed

theorem payout_three_tricks_witness:
  "valid_shuffle (stack [(12, S), (13, S), (14, S), (2, S), (3, S), (4, S)]) \<and>
   valid_shuffle (stack [(11, S), (13, S), (14, S), (2, S), (3, S), (4, S)]) \<and>
   valid_shuffle (stack [(14, H), (14, D), (14, S), (2, H), (3, D), (4, S)]) \<and>
   valid_shuffle id \<and>
   (\<exists>r. play_game (stack [(12, S), (13, S), (14, S), (2, S), (3, S), (4, S)]) id = Inr r \<and>
        tricks_won r = 3 \<and> ante_result r = 1 \<and> play_result r = 2 \<and> booray_result r = 500) \<and>
   (\<exists>r. play_game (stack [(11, S), (13, S), (14, S), (2, S), (3, S), (4, S)]) id = Inr r \<and>
        tricks_won r = 3 \<and> ante_result r = 1 \<and> play_result r = 2 \<and> booray_result r = 10) \<and>
   (\<exists>r. play_game (stack [(14, H), (14, D), (14, S), (2, H), (3, D), (4, S)]) id = Inr r \<and>
        tricks_won r = 3 \<and> ante_result r = 1 \<and> play_result r = 2 \<and> booray_result r = 1)"
proof -
  let ?ta = "\<lparr>t_trump_suit = S, t_dealer_hand = [(2, S), (3, S), (4, S)],
          t_initial_hand = [(12, S), (13, S), (14, S)], t_og3_type = ''Mini Royal'',
          t_og3_payout = 50, t_drawn_hand = [(12, S), (13, S), (14, S)], t_player_hand = [],
          t_tricks_won = 3, t_used_trump = [(14, S), (13, S), (12, S)]\<rparr>"
  let ?tb = "\<lparr>t_trump_suit = S, t_dealer_hand = [(2, S), (3, S), (4, S)],
          t_initial_hand = [(11, S), (13, S), (14, S)], t_og3_type = ''Flush'',
          t_og3_payout = 3, t_drawn_hand = [(11, S), (13, S), (14, S)], t_player_hand = [],
          t_tricks_won = 3, t_used_trump = [(14, S), (13, S), (11, S)]\<rparr>"
  let ?tc = "\<lparr>t_trump_suit = S, t_dealer_hand = [(2, H), (3, D), (4, S)],
          t_initial_hand = [(14, H), (14, D), (14, S)], t_og3_type = ''Trips'',
          t_og3_payout = 30, t_drawn_hand = [(14, H), (14, D), (14, S)], t_player_hand = [],
          t_tricks_won = 3, t_used_trump = [(14, S)]\<rparr>"
  have a: "play_game (stack [(12, S), (13, S), (14, S), (2, S), (3, S), (4, S)]) id =
             Inr (game_result ?ta) \<and>
           tricks_won (game_result ?ta) = 3 \<and> ante_result (game_result ?ta) = 1 \<and>
           play_result (game_result ?ta) = 2 \<and> booray_result (game_result ?ta) = 500"
    using payout_three_tricks [OF valid_shuffle_stack valid_shuffle_id run_akq]
    by (simp add: played_akq del: played_cards.simps)
  have b: "play_game (stack [(11, S), (13, S), (14, S), (2, S), (3, S), (4, S)]) id =
             Inr (game_result ?tb) \<and>
           tricks_won (game_result ?tb) = 3 \<and> ante_result (game_result ?tb) = 1 \<and>
           play_result (game_result ?tb) = 2 \<and> booray_result (game_result ?tb) = 10"
    using payout_three_tricks [OF valid_shuffle_stack valid_shuffle_id run_all_trump]
    by (simp add: played_akq del: played_cards.simps)
  have c: "play_game (stack [(14, H), (14, D), (14, S), (2, H), (3, D), (4, S)]) id =
             Inr (game_result ?tc) \<and>
           tricks_won (game_result ?tc) = 3 \<and> ante_result (game_result ?tc) = 1 \<and>
           play_result (game_result ?tc) = 2 \<and> booray_result (game_result ?tc) = 1"
    using aces_not_akq payout_three_tricks [OF valid_shuffle_stack valid_shuffle_id run_aces]
    by (simp add: played_akq del: played_cards.simps)
  from a b c show ?thesis
    by (intro conjI valid_shuffle_stack valid_shuffle_id exI) blast+
qed

text \<open>
  Claim C7: with at least two trump cards in the hand \<open>should_draw\<close> returns no-draw
  (and an empty list); with fewer it returns the list of the non-trump cards of rank
  below 10, with the flag draw when that list is not empty and no-draw when it is.
\<close>
theorem should_draw_rule:
  "(length (filter (\<lambda>c. snd c = trump_suit) hand) \<ge> 2 \<longrightarrow>
      should_draw hand trump_suit = (False, [])) \<and>
   (length (filter (\<lambda>c. snd c = trump_suit) hand) < 2 \<longrightarrow>
      should_draw hand trump_suit =
        (filter (\<lambda>c. snd c \<noteq> trump_suit \<and> fst c < 10) hand \<noteq> [],
         filter (\<lambda>c. snd c \<noteq> trump_suit \<and> fst c < 10) hand))"
proof -
  have "filter (\<lambda>c. fst c < 10) (filter (\<lambda>c. snd c \<noteq> trump_suit) hand) =
          filter (\<lambda>c. snd c \<noteq> trump_suit \<and> fst c < 10) hand"
    by (auto intro: filter_cong)
  then show ?thesis by (simp add: should_draw_def Let_def)
qed

theorem should_draw_rule_witness:
  "length (filter (\<lambda>c. snd c = S) [(2, S), (3, S), (4, H)]) \<ge> 2 \<and>
   should_draw [(2, S), (3, S), (4, H)] S = (False, []) \<and>
   length (filter (\<lambda>c. snd c = S) [(2, S), (3, D), (4, H)]) < 2 \<and>
   should_draw [(2, S), (3, D), (4, H)] S = (True, [(3, D), (4, H)]) \<and>
   length (filter (\<lambda>c. snd c = S) [(2, S), (13, D), (14, H)]) < 2 \<and>
   should_draw [(2, S), (13, D), (14, H)] S = (False, [])"
  using should_draw_rule [of S "[(2, S), (3, S), (4, H)]"]
    should_draw_rule [of S "[(2, S), (3, D), (4, H)]"]
    should_draw_rule [of S "[(2, S), (13, D), (14, H)]"]
  by simp



text \<open>
  Claim C9: every trial with real shuffles returns a result whose \<open>final_hand\<close> is the
  empty list; the trick loop starts from a hand of three cards and the player plays
  three cards, one in each trick.
\<close>
theorem final_hand_empty:
  assumes "valid_shuffle sh1" and "valid_shuffle sh2"
  shows "\<exists>t. play_game_tricks sh1 sh2 = Inr t \<and>
             length (t_drawn_hand t) = 3 \<and>
             length (played_cards (t_trump_suit t) (t_dealer_hand t) (t_drawn_hand t)) = 3 \<and>
             play_game sh1 sh2 = Inr (game_result t) \<and>
             final_hand (game_result t) = []"
proof -
  from play_game_tricks_run [OF assms] obtain t where
    run: "play_game_tricks sh1 sh2 = Inr t"
    and len: "length (played_cards (t_trump_suit t) (t_dealer_hand t) (t_drawn_hand t)) = 3"
    and dh: "length (t_drawn_hand t) = 3"
    and e: "t_player_hand t = []"
    by fastforce
  have "play_game sh1 sh2 = Inr (game_result t)" using run by (simp add: play_game_def)
  then show ?thesis using run len dh e by (auto simp: game_result_fields(2))
qed

theorem final_hand_empty_witness:
  "valid_shuffle id \<and> (\<exists>r. play_game id id = Inr r \<and> final_hand r = [])"
  using final_hand_empty [of id id] by (auto simp: valid_shuffle_id)

text \<open>
  Claim C10: in every result \<open>play_game\<close> returns, \<open>used_akq_trump\<close> implies
  \<open>used_all_trump\<close>: the first is false unless the trump-usage list has three cards,
  which is what the second says.
\<close>
theorem akq_implies_all_trump:
  assumes "play_game sh1 sh2 = Inr r" and "used_akq_trump r"
  shows "used_all_trump r"
proof -
  from assms(1) obtain t where r: "r = game_result t"
    by (auto simp: play_game_def split: sum.splits)
  from assms(2) show ?thesis unfolding r by (simp add: game_result_fields)
qed

theorem akq_implies_all_trump_witness:
  "\<exists>r. play_game (stack [(12, S), (13, S), (14, S), (2, S), (3, S), (4, S)]) id = Inr r \<and>
       used_akq_trump r \<and> used_all_trump r"
proof -
  let ?t = "\<lparr>t_trump_suit = S, t_dealer_hand = [(2, S), (3, S), (4, S)],
          t_initial_hand = [(12, S), (13, S), (14, S)], t_og3_type = ''Mini Royal'',
          t_og3_payout = 50, t_drawn_hand = [(12, S), (13, S), (14, S)], t_player_hand = [],
          t_tricks_won = 3, t_used_trump = [(14, S), (13, S), (12, S)]\<rparr>"
  have g: "play_game (stack [(12, S), (13, S), (14, S), (2, S), (3, S), (4, S)]) id =
             Inr (game_result ?t)"
    by (simp add: play_game_def run_akq)
  have a: "used_akq_trump (game_result ?t)" by (simp add: game_result_fields)
  from akq_implies_all_trump [OF g a] g a show ?thesis by blast
qed

end
